theory Spec2Isabelle
  imports Complex_Main "HOL-Library.Sublist" "HOL-Library.Monad_Syntax"
begin

section \<open>Serial capture of a monitoring session: tools/capture_monitor_to_excel.py\<close>

text \<open>
  The embedding covers \<^verbatim>\<open>ROW_PATTERN\<close>, \<^verbatim>\<open>parse_row\<close>,
  \<^verbatim>\<open>run_tare_before_monitor\<close> and \<^verbatim>\<open>capture_monitor_session\<close>.

  Conventions of the model:
  \<^item> A Python \<^verbatim>\<open>str\<close> is a \<open>string\<close>; each \<open>char\<close> stands for one code point
    below 256. In that range \<^verbatim>\<open>\d\<close> and \<^verbatim>\<open>[0-9]\<close> agree, and \<^verbatim>\<open>\s\<close> and
    \<^verbatim>\<open>str.strip()\<close> use the white-space set \<open>isspace\<close> below.
  \<^item> A Python \<^verbatim>\<open>float\<close> and a reading of \<^verbatim>\<open>time.time()\<close> is a \<open>real\<close>:
    \<^verbatim>\<open>float(text)\<close> is the exact value of the decimal numeral, rounding to binary
    floating point is not modelled. \<^verbatim>\<open>int(text)\<close> is an unbounded \<open>int\<close>;
    the interpreter's limit on the number of digits it converts is not modelled.
  \<^item> The serial port is the environment. What it supplies is a list of events, one per
    loop iteration; a loop that has used up the list without leaving is still running.
    The echo of each line to the console is left out, and so is the emptying of the
    input buffer before the monitor command: the events of the capture loop are the
    reads made after that command.
\<close>

subsection \<open>Text helpers\<close>

definition isspace :: "char \<Rightarrow> bool" where
  "isspace c = (c \<in> set [CHR 0x09, CHR 0x0A, CHR 0x0B, CHR 0x0C, CHR 0x0D,
                          CHR 0x1C, CHR 0x1D, CHR 0x1E, CHR 0x1F, CHR 0x20,
                          CHR 0x85, CHR 0xA0])"

definition isdigit :: "char \<Rightarrow> bool" where
  "isdigit c = (c \<in> set ''0123456789'')"

text \<open>\<^verbatim>\<open>str.strip()\<close>: white space removed at both ends.\<close>

definition strip :: "string \<Rightarrow> string" where
  "strip s = rev (dropWhile isspace (rev (dropWhile isspace s)))"

text \<open>\<^verbatim>\<open>pat in line\<close>: \<open>pat\<close> occurs in \<open>line\<close> as a contiguous block.\<close>

fun contains :: "string \<Rightarrow> string \<Rightarrow> bool" where
  "contains pat [] = (pat = [])"
| "contains pat (c # cs) = (prefix pat (c # cs) \<or> contains pat cs)"

subsection \<open>Numerals: \<^verbatim>\<open>int(text)\<close> and \<^verbatim>\<open>float(text)\<close> on the matched groups\<close>

definition digit_val :: "char \<Rightarrow> nat" where
  "digit_val c = of_char c - 48"

definition nat_of_digits :: "string \<Rightarrow> nat" where
  "nat_of_digits ds = foldl (\<lambda>n c. 10 * n + digit_val c) 0 ds"

text \<open>
  The groups handed to \<^verbatim>\<open>int\<close> are of the form \<^verbatim>\<open>-?\d+\<close>, those handed to
  \<^verbatim>\<open>float\<close> of the form \<^verbatim>\<open>-?\d+(\.\d+)?\<close>; the conversions are written for
  these forms only.
\<close>

definition py_int :: "string \<Rightarrow> int" where
  "py_int g = (case g of
       [] \<Rightarrow> 0
     | c # ds \<Rightarrow> if c = CHR ''-'' then - int (nat_of_digits ds) else int (nat_of_digits g))"

definition unsigned_float :: "string \<Rightarrow> real" where
  "unsigned_float g =
     (let ip = takeWhile (\<lambda>c. c \<noteq> CHR ''.'') g;
          fp = drop (Suc (length ip)) g
      in real (nat_of_digits ip) + real (nat_of_digits fp) / 10 ^ length fp)"

definition py_float :: "string \<Rightarrow> real" where
  "py_float g = (case g of
       [] \<Rightarrow> 0
     | c # ds \<Rightarrow> if c = CHR ''-'' then - unsigned_float ds else unsigned_float g)"

subsection \<open>\<^verbatim>\<open>ROW_PATTERN\<close> and \<^verbatim>\<open>parse_row\<close>\<close>

text \<open>
  \<^verbatim>\<open>^\s*([0-9]+(?:\.[0-9]+)?)\s*,\s*([0-9]+)\s*,\s*(-?\d+)\s*,\s*(-?\d+)\s*,\s*(-?\d+)\s*,\s*(-?\d+)\s*,\s*(-?\d+(?:\.\d+)?)\<close>

  The pattern is matched with \<^verbatim>\<open>re.match\<close>: anchored at the start of the line, not at
  its end. Each piece below consumes a prefix of the text and returns what it matched
  together with the rest. Every quantifier is greedy, and no shorter choice can let the
  pattern go on (after a run of digits the pattern needs a character that is not a
  digit, after white space one that is not white space), so the longest choice at each
  piece is the match the backtracking engine reports.
\<close>

definition skip_space :: "string \<Rightarrow> string" where
  \<comment> \<open>\<^verbatim>\<open>\s*\<close>\<close>
  "skip_space s = dropWhile isspace s"

definition digits1 :: "string \<Rightarrow> (string \<times> string) option" where
  \<comment> \<open>\<^verbatim>\<open>[0-9]+\<close>, \<^verbatim>\<open>\d+\<close>\<close>
  "digits1 s = (let ds = takeWhile isdigit s
                in if ds = [] then None else Some (ds, dropWhile isdigit s))"

definition opt_frac :: "string \<Rightarrow> string \<times> string" where
  \<comment> \<open>\<^verbatim>\<open>(?:\.[0-9]+)?\<close>\<close>
  "opt_frac s = (case s of
       [] \<Rightarrow> ([], s)
     | c # r \<Rightarrow> if c = CHR ''.''
                then (case digits1 r of None \<Rightarrow> ([], s) | Some (fs, r') \<Rightarrow> (c # fs, r'))
                else ([], s))"

definition opt_minus :: "string \<Rightarrow> string \<times> string" where
  \<comment> \<open>\<^verbatim>\<open>-?\<close>\<close>
  "opt_minus s = (case s of
       [] \<Rightarrow> ([], s)
     | c # r \<Rightarrow> if c = CHR ''-'' then ([c], r) else ([], s))"

definition unsigned_decimal :: "string \<Rightarrow> (string \<times> string) option" where
  \<comment> \<open>\<^verbatim>\<open>[0-9]+(?:\.[0-9]+)?\<close>\<close>
  "unsigned_decimal s = (case digits1 s of
       None \<Rightarrow> None
     | Some (ds, r) \<Rightarrow> (case opt_frac r of (fs, r') \<Rightarrow> Some (ds @ fs, r')))"

definition signed_int :: "string \<Rightarrow> (string \<times> string) option" where
  \<comment> \<open>\<^verbatim>\<open>-?\d+\<close>\<close>
  "signed_int s = (case opt_minus s of (m, r) \<Rightarrow>
       (case digits1 r of None \<Rightarrow> None | Some (ds, r') \<Rightarrow> Some (m @ ds, r')))"

definition signed_decimal :: "string \<Rightarrow> (string \<times> string) option" where
  \<comment> \<open>\<^verbatim>\<open>-?\d+(?:\.\d+)?\<close>\<close>
  "signed_decimal s = (case opt_minus s of (m, r) \<Rightarrow>
       (case unsigned_decimal r of None \<Rightarrow> None | Some (d, r') \<Rightarrow> Some (m @ d, r')))"

definition sep :: "string \<Rightarrow> string option" where
  \<comment> \<open>\<^verbatim>\<open>\s*,\s*\<close>\<close>
  "sep s = (case skip_space s of
       [] \<Rightarrow> None
     | c # r \<Rightarrow> if c = CHR '','' then Some (skip_space r) else None)"

type_synonym groups = "string \<times> string \<times> string \<times> string \<times> string \<times> string \<times> string"

definition ROW_PATTERN_match :: "string \<Rightarrow> groups option" where
  "ROW_PATTERN_match line = do {
     (g1, r) \<leftarrow> unsigned_decimal (skip_space line);
     r \<leftarrow> sep r;
     (g2, r) \<leftarrow> digits1 r;
     r \<leftarrow> sep r;
     (g3, r) \<leftarrow> signed_int r;
     r \<leftarrow> sep r;
     (g4, r) \<leftarrow> signed_int r;
     r \<leftarrow> sep r;
     (g5, r) \<leftarrow> signed_int r;
     r \<leftarrow> sep r;
     (g6, r) \<leftarrow> signed_int r;
     r \<leftarrow> sep r;
     (g7, r) \<leftarrow> signed_decimal r;
     Some (g1, g2, g3, g4, g5, g6, g7)
   }"

record DataRow =
  elapsed_s :: real
  sample_ms :: int
  raw_adc :: int
  avg_20 :: int
  filtered_20 :: int
  zeroed_adc :: int
  strain_uE :: real

definition parse_row :: "string \<Rightarrow> DataRow option" where
  "parse_row line = (case ROW_PATTERN_match line of
       None \<Rightarrow> None
     | Some (g1, g2, g3, g4, g5, g6, g7) \<Rightarrow>
         Some \<lparr>elapsed_s = py_float g1, sample_ms = py_int g2, raw_adc = py_int g3,
               avg_20 = py_int g4, filtered_20 = py_int g5, zeroed_adc = py_int g6,
               strain_uE = py_float g7\<rparr>)"

subsection \<open>Protocol markers and commands\<close>

definition TARE_BANNER :: string where
  "TARE_BANNER = ''=== TARING STRAIN GAUGE ===''"

definition TARE_SUCCESS :: string where
  "TARE_SUCCESS = ''Strain gauge zeroed successfully!''"

definition TARE_FAILURE :: string where
  "TARE_FAILURE = ''Failed to zero strain gauge!''"

definition BANNER_CLOSE :: string where
  "BANNER_CLOSE = ''===========================''"

definition SESSION_START :: string where
  "SESSION_START = ''[M_SESSION_START]''"

definition SESSION_END :: string where
  "SESSION_END = ''[M_SESSION_END]''"

definition STOPPED_PHRASE :: string where
  "STOPPED_PHRASE = ''Monitoring stopped. Collected''"

definition STOP_CMD :: string where
  \<comment> \<open>\<^verbatim>\<open>b"x\n"\<close>\<close>
  "STOP_CMD = [CHR ''x'', CHR 0x0A]"

text \<open>
  The four \<^verbatim>\<open>RuntimeError\<close>s of the script, told apart by their message and named as
  the specification names them.
\<close>

datatype error = TareTimeout | TareFailed | TareEndedWithoutResult | EmptySession

subsection \<open>\<^verbatim>\<open>run_tare_before_monitor\<close>\<close>

text \<open>
  One pair per iteration of the polling loop: the reading of \<^verbatim>\<open>time.time()\<close> in the
  deadline test and the text of \<^verbatim>\<open>ser.readline()\<close> after the lossy decode (empty when
  the read timed out).
\<close>

type_synonym poll = "real \<times> string"

datatype tare_outcome = TareReturned | TareRaised error | TarePolling

fun tare_loop :: "real \<Rightarrow> real \<Rightarrow> bool \<Rightarrow> poll list \<Rightarrow> tare_outcome" where
  "tare_loop tare_timeout_s tare_start saw_tare_banner [] = TarePolling"
| "tare_loop tare_timeout_s tare_start saw_tare_banner ((now, raw) # polls) =
     (if now - tare_start > tare_timeout_s then TareRaised TareTimeout
      else if raw = [] then tare_loop tare_timeout_s tare_start saw_tare_banner polls
      else let line = strip raw in
        if line = [] then tare_loop tare_timeout_s tare_start saw_tare_banner polls
        else let saw = (saw_tare_banner \<or> contains TARE_BANNER line) in
          if contains TARE_SUCCESS line then TareReturned
          else if contains TARE_FAILURE line then TareRaised TareFailed
          else if saw \<and> contains BANNER_CLOSE line then TareRaised TareEndedWithoutResult
          else tare_loop tare_timeout_s tare_start saw polls)"

definition run_tare_before_monitor :: "real \<Rightarrow> real \<Rightarrow> poll list \<Rightarrow> tare_outcome" where
  "run_tare_before_monitor tare_timeout_s tare_start polls =
     tare_loop tare_timeout_s tare_start False polls"

subsection \<open>The capture loop of \<^verbatim>\<open>capture_monitor_session\<close>\<close>

text \<open>
  \<open>start_wall\<close> is the clock reading taken once before the loop. An event carries what
  the environment answers during one iteration: the clock in the hard-timeout test,
  the text read, the clock when the start marker is seen and the clock in the duration
  test. A reading that the iteration does not ask for is not used.
\<close>

record params =
  duration :: "real option"
  timeout :: real
  start_wall :: real

record event =
  now_top :: real
  rx :: string
  now_start :: real
  now_dur :: real

record capture_state =
  rows :: "DataRow list"
  collecting :: bool
  sent_stop :: bool
  monitor_start_wall :: "real option"
  written :: "string list"

text \<open>
  The state on entry to the loop: nothing collected, and the port has been sent the
  tare command and the monitor command.
\<close>

definition init_state :: capture_state where
  "init_state = \<lparr>rows = [], collecting = False, sent_stop = False,
                 monitor_start_wall = None, written = [''z'', ''m'']\<rparr>"

datatype flow = Continue capture_state | Break capture_state

definition send_stop :: "capture_state \<Rightarrow> capture_state" where
  "send_stop st = st\<lparr>written := written st @ [STOP_CMD], sent_stop := True\<rparr>"

definition deadline_check :: "params \<Rightarrow> event \<Rightarrow> capture_state \<Rightarrow> flow" where
  "deadline_check p ev st =
     (if timeout p > 0 \<and> now_top ev - start_wall p > timeout p then
        (if collecting st \<and> \<not> sent_stop st then Continue (send_stop st) else Break st)
      else Continue st)"

definition ends_session :: "string \<Rightarrow> bool" where
  "ends_session line = (contains SESSION_END line \<or> contains STOPPED_PHRASE line)"

definition classify :: "params \<Rightarrow> event \<Rightarrow> string \<Rightarrow> capture_state \<Rightarrow> flow" where
  "classify p ev line st =
     (let st1 = (if contains SESSION_START line
                 then st\<lparr>collecting := True, monitor_start_wall := Some (now_start ev)\<rparr>
                 else st)
      in if collecting st1 then
           let st2 = (case parse_row line of
                        None \<Rightarrow> st1
                      | Some parsed \<Rightarrow> st1\<lparr>rows := rows st1 @ [parsed]\<rparr>);
               st3 = (case duration p of
                        None \<Rightarrow> st2
                      | Some d \<Rightarrow>
                          if sent_stop st2 then st2
                          else (case monitor_start_wall st2 of
                                  None \<Rightarrow> st2
                                | Some t0 \<Rightarrow> if now_dur ev - t0 \<ge> d then send_stop st2 else st2))
           in if ends_session line then Break st3 else Continue st3
         else Continue st1)"

definition read_line :: "params \<Rightarrow> event \<Rightarrow> capture_state \<Rightarrow> flow" where
  "read_line p ev st =
     (if rx ev = [] then Continue st
      else let line = strip (rx ev) in
        if line = [] then Continue st else classify p ev line st)"

definition loop_body :: "params \<Rightarrow> event \<Rightarrow> capture_state \<Rightarrow> flow" where
  "loop_body p ev st = (case deadline_check p ev st of
       Break st' \<Rightarrow> Break st'
     | Continue st' \<Rightarrow> read_line p ev st')"

datatype outcome = Exited capture_state | Running capture_state

fun capture_loop :: "params \<Rightarrow> event list \<Rightarrow> capture_state \<Rightarrow> outcome" where
  "capture_loop p [] st = Running st"
| "capture_loop p (ev # evs) st = (case loop_body p ev st of
       Break st' \<Rightarrow> Exited st'
     | Continue st' \<Rightarrow> capture_loop p evs st')"

fun state_of :: "outcome \<Rightarrow> capture_state" where
  "state_of (Exited st) = st"
| "state_of (Running st) = st"

subsection \<open>After the loop\<close>

text \<open>
  The data frame: the collected rows in order, the column \<^verbatim>\<open>sample\<close> counting from 1,
  and \<^verbatim>\<open>entry_interval_ms\<close>, the difference of consecutive \<^verbatim>\<open>elapsed_s\<close> in
  milliseconds, with \<^verbatim>\<open>sample_ms\<close> in the first row where there is no difference.
\<close>

record frame_row =
  sample :: nat
  data :: DataRow
  entry_interval_ms :: real

fun frame_rows :: "nat \<Rightarrow> DataRow option \<Rightarrow> DataRow list \<Rightarrow> frame_row list" where
  "frame_rows n prev [] = []"
| "frame_rows n prev (r # rs) =
     \<lparr>sample = n, data = r,
      entry_interval_ms = (case prev of
          None \<Rightarrow> real_of_int (sample_ms r)
        | Some q \<Rightarrow> (elapsed_s r - elapsed_s q) * 1000)\<rparr>
     # frame_rows (Suc n) (Some r) rs"

definition finish :: "capture_state \<Rightarrow> error + frame_row list" where
  "finish st = (if rows st = [] then Inl EmptySession else Inr (frame_rows 1 None (rows st)))"

datatype session_outcome = Returned "frame_row list" | Raised error | Unfinished

text \<open>
  The whole operation: the tare handshake with its default limit of 60 seconds, then the
  capture loop on what the port supplies after the monitor command, then the check for
  an empty session.
\<close>

definition capture_monitor_session ::
  "params \<Rightarrow> real \<Rightarrow> poll list \<Rightarrow> event list \<Rightarrow> session_outcome" where
  "capture_monitor_session p tare_start polls evs =
     (case run_tare_before_monitor 60 tare_start polls of
        TareRaised e \<Rightarrow> Raised e
      | TarePolling \<Rightarrow> Unfinished
      | TareReturned \<Rightarrow>
          (case capture_loop p evs init_state of
             Running st \<Rightarrow> Unfinished
           | Exited st \<Rightarrow> (case finish st of Inl e \<Rightarrow> Raised e | Inr df \<Rightarrow> Returned df)))"

section \<open>Auxiliary notions for the properties\<close>

fun flow_state :: "flow \<Rightarrow> capture_state" where
  "flow_state (Continue st) = st"
| "flow_state (Break st) = st"

definition stop_count :: "capture_state \<Rightarrow> nat" where
  "stop_count st = count_list (written st) STOP_CMD"

text \<open>
  The loop invariant behind the single stop command: the flag \<open>sent_stop\<close> tells
  exactly whether the command is in the log of the port.
\<close>

definition stop_inv :: "capture_state \<Rightarrow> bool" where
  "stop_inv st = (stop_count st = (if sent_stop st then 1 else 0))"

text \<open>
  An event whose three clock readings coincide, and the row that the line of an event
  parses to.
\<close>

definition recv :: "real \<Rightarrow> string \<Rightarrow> event" where
  "recv t s = \<lparr>now_top = t, rx = s, now_start = t, now_dur = t\<rparr>"

definition line_row :: "event \<Rightarrow> DataRow option" where
  "line_row ev = parse_row (strip (rx ev))"

text \<open>
  The stripped line of a poll of the tare loop, and a poll that decides nothing: read
  within the time limit, with neither the success nor the failure marker in its line.
\<close>

definition tare_line :: "poll \<Rightarrow> string" where
  "tare_line e = strip (snd e)"

definition undecided :: "real \<Rightarrow> real \<Rightarrow> poll \<Rightarrow> bool" where
  "undecided tare_timeout_s tare_start e =
     (\<not> fst e - tare_start > tare_timeout_s \<and>
      \<not> contains TARE_SUCCESS (tare_line e) \<and> \<not> contains TARE_FAILURE (tare_line e))"

text \<open>
  The pace of a silent port: the clock reading at the top of each iteration is at most
  \<open>poll\<close> later than the one before, the first at most \<open>poll\<close> later than \<open>t\<close>.
\<close>

fun paced :: "real \<Rightarrow> real \<Rightarrow> event list \<Rightarrow> bool" where
  "paced poll t [] = True"
| "paced poll t (e # es) = (now_top e \<le> t + poll \<and> paced poll (now_top e) es)"

subsection \<open>The data-row grammar in the words of the specification\<close>












definition next_ok :: "string \<Rightarrow> bool" where
  "next_ok r = (r = [] \<or> isspace (hd r) \<or> hd r = CHR '','')"

subsection \<open>Rendering a row as a line\<close>










section \<open>The stop command\<close>

lemma contains_Nil_iff [simp]: "contains pat [] = (pat = [])"
  by simp

lemma ends_session_Nil [simp]: "\<not> ends_session []"
  by (simp add: ends_session_def SESSION_END_def STOPPED_PHRASE_def)

lemma not_start_Nil [simp]: "\<not> contains SESSION_START []"
  by (simp add: SESSION_START_def)

lemma strip_Nil [simp]: "strip [] = []"
  by (simp add: strip_def)

lemma rows_send_stop [simp]: "rows (send_stop st) = rows st"
  by (simp add: send_stop_def)

lemma collecting_send_stop [simp]: "collecting (send_stop st) = collecting st"
  by (simp add: send_stop_def)

lemma stop_inv_send_stop: "stop_inv st \<Longrightarrow> \<not> sent_stop st \<Longrightarrow> stop_inv (send_stop st)"
  by (simp add: stop_inv_def stop_count_def send_stop_def)

lemma stop_inv_deadline_check: "stop_inv st \<Longrightarrow> stop_inv (flow_state (deadline_check p ev st))"
  by (simp add: deadline_check_def stop_inv_send_stop)

lemma stop_inv_classify: "stop_inv st \<Longrightarrow> stop_inv (flow_state (classify p ev line st))"
  by (auto simp: classify_def Let_def stop_inv_def stop_count_def send_stop_def
           split: option.splits)

lemma stop_inv_read_line: "stop_inv st \<Longrightarrow> stop_inv (flow_state (read_line p ev st))"
  by (simp add: read_line_def Let_def stop_inv_classify)

lemma stop_inv_loop_body: "stop_inv st \<Longrightarrow> stop_inv (flow_state (loop_body p ev st))"
proof -
  assume inv: "stop_inv st"
  show ?thesis
  proof (cases "deadline_check p ev st")
    case (Continue st')
    with stop_inv_deadline_check [OF inv, of p ev] have "stop_inv st'" by simp
    with Continue show ?thesis by (simp add: loop_body_def stop_inv_read_line)
  next
    case (Break st')
    with stop_inv_deadline_check [OF inv, of p ev] show ?thesis by (simp add: loop_body_def)
  qed
qed

lemma stop_inv_capture_loop: "stop_inv st \<Longrightarrow> stop_inv (state_of (capture_loop p evs st))"
proof (induction evs arbitrary: st)
  case Nil
  then show ?case by simp
next
  case (Cons ev evs)
  show ?case
  proof (cases "loop_body p ev st")
    case (Continue st')
    with stop_inv_loop_body [OF Cons.prems, of p ev] have "stop_inv st'" by simp
    with Continue Cons.IH show ?thesis by simp
  next
    case (Break st')
    with stop_inv_loop_body [OF Cons.prems, of p ev] show ?thesis by simp
  qed
qed

lemma stop_inv_init: "stop_inv init_state"
  by (simp add: stop_inv_def stop_count_def init_state_def STOP_CMD_def)

text \<open>
  C1. Whatever the port supplies and whatever the two limits are, the log of the port
  holds the stop command at most once when the loop has left, and at every moment
  while it is still running.
\<close>

theorem stop_written_at_most_once:
  "count_list (written (state_of (capture_loop p evs init_state))) STOP_CMD \<le> 1"
proof -
  have "stop_inv (state_of (capture_loop p evs init_state))"
    by (rule stop_inv_capture_loop [OF stop_inv_init])
  then show ?thesis by (simp add: stop_inv_def stop_count_def split: if_splits)
qed

section \<open>The hard timeout\<close>

text \<open>
  C2, as the code has it. When the timeout is positive and the clock is past it, the
  iteration sends the stop command and goes on to read a line only if the session is
  being collected and no stop has been sent; in every other state (a stop already sent,
  or the start marker not yet seen) the loop is left at once with the state unchanged.
\<close>

theorem hard_timeout_effect:
  assumes "timeout p > 0" and "now_top ev - start_wall p > timeout p"
  shows "loop_body p ev st =
           (if collecting st \<and> \<not> sent_stop st then read_line p ev (send_stop st)
            else Break st)"
  using assms by (simp add: loop_body_def deadline_check_def)

theorem hard_timeout_effect_witness:
  "loop_body \<lparr>duration = None, timeout = 1, start_wall = 0\<rparr>
             \<lparr>now_top = 2, rx = [], now_start = 2, now_dur = 2\<rparr>
             (init_state\<lparr>collecting := True\<rparr>)
     = Continue (init_state\<lparr>collecting := True, written := [''z'', ''m'', STOP_CMD],
                            sent_stop := True\<rparr>)"
  using hard_timeout_effect [of "\<lparr>duration = None, timeout = 1, start_wall = 0\<rparr>"
             "\<lparr>now_top = 2, rx = [], now_start = 2, now_dur = 2\<rparr>"
             "init_state\<lparr>collecting := True\<rparr>"]
  by (simp add: init_state_def read_line_def send_stop_def)

text \<open>
  C2 as stated fails before the start marker: with a timeout of 1 second, the clock at
  2 seconds and no stop sent, the loop is left and nothing is written to the port.
\<close>

theorem hard_timeout_before_start_aborts:
  "\<not> sent_stop init_state \<and>
   loop_body \<lparr>duration = None, timeout = 1, start_wall = 0\<rparr>
             \<lparr>now_top = 2, rx = [], now_start = 2, now_dur = 2\<rparr> init_state
     = Break init_state"
  by (simp add: loop_body_def deadline_check_def init_state_def)

lemma no_deadline: "timeout p \<le> 0 \<Longrightarrow> deadline_check p ev st = Continue st"
  by (simp add: deadline_check_def)

lemma classify_Break_ends: "classify p ev line st = Break st' \<Longrightarrow> ends_session line"
  by (auto simp: classify_def Let_def split: if_splits)

lemma read_line_Break_ends: "read_line p ev st = Break st' \<Longrightarrow> ends_session (strip (rx ev))"
  by (auto simp: read_line_def Let_def split: if_splits dest: classify_Break_ends)

lemma no_deadline_exit_only_on_end:
  "timeout p \<le> 0 \<Longrightarrow> capture_loop p evs st = Exited st' \<Longrightarrow>
   \<exists>ev\<in>set evs. ends_session (strip (rx ev))"
proof (induction evs arbitrary: st)
  case Nil
  then show ?case by simp
next
  case (Cons ev evs)
  show ?case
  proof (cases "read_line p ev st")
    case (Continue st1)
    with Cons.prems have "capture_loop p evs st1 = Exited st'"
      by (simp add: loop_body_def no_deadline)
    with Cons.IH Cons.prems(1) show ?thesis by auto
  next
    case (Break st1)
    then show ?thesis by (auto dest: read_line_Break_ends)
  qed
qed

text \<open>
  C10. With a timeout that is zero or negative the deadline test changes nothing and
  never leaves the loop: an iteration is just the reading of a line. The loop can then
  be left only at a line with the end marker or the completion phrase, and on input
  without such a line it is still running after any number of iterations.
\<close>

theorem nonpositive_timeout_never_fires:
  assumes "timeout p \<le> 0"
  shows "deadline_check p ev st = Continue st \<and>
         loop_body p ev st = read_line p ev st \<and>
         (\<forall>st'. capture_loop p evs st = Exited st' \<longrightarrow>
                (\<exists>e\<in>set evs. ends_session (strip (rx e)))) \<and>
         ((\<forall>e\<in>set evs. \<not> ends_session (strip (rx e))) \<longrightarrow>
            (\<exists>st'. capture_loop p evs st = Running st'))"
proof -
  have a: "deadline_check p ev st = Continue st" using assms by (rule no_deadline)
  have b: "loop_body p ev st = read_line p ev st" by (simp add: loop_body_def a)
  have c: "\<forall>st'. capture_loop p evs st = Exited st' \<longrightarrow>
                 (\<exists>e\<in>set evs. ends_session (strip (rx e)))"
    using no_deadline_exit_only_on_end [OF assms] by blast
  have d: "(\<forall>e\<in>set evs. \<not> ends_session (strip (rx e))) \<longrightarrow>
             (\<exists>st'. capture_loop p evs st = Running st')"
  proof
    assume h: "\<forall>e\<in>set evs. \<not> ends_session (strip (rx e))"
    show "\<exists>st'. capture_loop p evs st = Running st'"
    proof (cases "capture_loop p evs st")
      case (Exited st')
      with c h show ?thesis by blast
    next
      case (Running st')
      then show ?thesis by blast
    qed
  qed
  from a b c d show ?thesis by blast
qed

theorem nonpositive_timeout_never_fires_witness:
  "timeout \<lparr>duration = Some 5, timeout = 0, start_wall = 0\<rparr> \<le> 0 \<and>
   \<not> ends_session (strip (rx (recv 100 ''[M_SESSION_START]''))) \<and>
   \<not> ends_session (strip (rx (recv 200 []))) \<and>
   \<not> ends_session (strip (rx (recv 300 ''1,2,3,4,5,6,7''))) \<and>
   (\<exists>st'. capture_loop \<lparr>duration = Some 5, timeout = 0, start_wall = 0\<rparr>
            [recv 100 ''[M_SESSION_START]'', recv 200 [], recv 300 ''1,2,3,4,5,6,7'']
            init_state = Running st')"
proof -
  have h: "timeout \<lparr>duration = Some 5, timeout = 0, start_wall = 0\<rparr> \<le> 0" by simp
  have n1: "\<not> ends_session (strip (rx (recv 100 ''[M_SESSION_START]'')))" by code_simp
  have n2: "\<not> ends_session (strip (rx (recv 200 [])))" by code_simp
  have n3: "\<not> ends_session (strip (rx (recv 300 ''1,2,3,4,5,6,7'')))" by code_simp
  from n1 n2 n3
  have n: "\<forall>e\<in>set [recv 100 ''[M_SESSION_START]'', recv 200 [], recv 300 ''1,2,3,4,5,6,7''].
             \<not> ends_session (strip (rx e))"
    by simp
  from nonpositive_timeout_never_fires [OF h]
  have "(\<forall>e\<in>set [recv 100 ''[M_SESSION_START]'', recv 200 [], recv 300 ''1,2,3,4,5,6,7''].
             \<not> ends_session (strip (rx e))) \<longrightarrow>
        (\<exists>st'. capture_loop \<lparr>duration = Some 5, timeout = 0, start_wall = 0\<rparr>
            [recv 100 ''[M_SESSION_START]'', recv 200 [], recv 300 ''1,2,3,4,5,6,7'']
            init_state = Running st')"
    by (rule conjunct2 [THEN conjunct2, THEN conjunct2])
  from this [rule_format, OF n [rule_format]] h n1 n2 n3 show ?thesis by (intro conjI)
qed

section \<open>Which lines become rows\<close>





text \<open>What an iteration adds to the rows: nothing, or the row parsed from its line.\<close>

lemma rows_deadline_check: "rows (flow_state (deadline_check p ev st)) = rows st"
  by (simp add: deadline_check_def)

lemma rows_classify:
  "rows (flow_state (classify p ev line st)) = rows st \<or>
   (\<exists>r. parse_row line = Some r \<and> rows (flow_state (classify p ev line st)) = rows st @ [r])"
  by (auto simp: classify_def Let_def split: option.splits)

lemma rows_read_line:
  "rows (flow_state (read_line p ev st)) = rows st \<or>
   (\<exists>r. line_row ev = Some r \<and> rows (flow_state (read_line p ev st)) = rows st @ [r])"
  using rows_classify [of p ev "strip (rx ev)" st]
  by (auto simp: read_line_def Let_def line_row_def)

lemma rows_loop_body:
  "rows (flow_state (loop_body p ev st)) = rows st \<or>
   (\<exists>r. line_row ev = Some r \<and> rows (flow_state (loop_body p ev st)) = rows st @ [r])"
proof (cases "deadline_check p ev st")
  case (Continue st1)
  with rows_deadline_check [of p ev st] have "rows st1 = rows st" by simp
  with rows_read_line [of p ev st1] Continue show ?thesis by (simp add: loop_body_def)
next
  case (Break st1)
  with rows_deadline_check [of p ev st] show ?thesis by (simp add: loop_body_def)
qed

lemma rows_loop_body_subseq:
  "\<exists>new. rows (flow_state (loop_body p ev st)) = rows st @ new \<and>
         subseq new (List.map_filter line_row [ev])"
  using rows_loop_body [of p ev st] by (auto simp: List.map_filter_simps)

lemma rows_capture_loop:
  "\<exists>new. rows (state_of (capture_loop p evs st)) = rows st @ new \<and>
         subseq new (List.map_filter line_row evs)"
proof (induction evs arbitrary: st)
  case Nil
  then show ?case by (simp add: List.map_filter_simps)
next
  case (Cons ev evs)
  obtain new1 where n1: "rows (flow_state (loop_body p ev st)) = rows st @ new1"
      and s1: "subseq new1 (List.map_filter line_row [ev])"
    using rows_loop_body_subseq by blast
  have split: "List.map_filter line_row (ev # evs)
                 = List.map_filter line_row [ev] @ List.map_filter line_row evs"
    by (simp add: List.map_filter_simps split: option.splits)
  show ?case
  proof (cases "loop_body p ev st")
    case (Continue st1)
    obtain new2 where n2: "rows (state_of (capture_loop p evs st1)) = rows st1 @ new2"
        and s2: "subseq new2 (List.map_filter line_row evs)"
      using Cons.IH by blast
    from Continue n1 n2 have "rows (state_of (capture_loop p (ev # evs) st)) = rows st @ (new1 @ new2)"
      by simp
    moreover from s1 s2 have "subseq (new1 @ new2) (List.map_filter line_row (ev # evs))"
      unfolding split by (rule list_emb_append_mono)
    ultimately show ?thesis by blast
  next
    case (Break st1)
    with n1 have "rows (state_of (capture_loop p (ev # evs) st)) = rows st @ new1" by simp
    moreover from s1 have "subseq new1 (List.map_filter line_row (ev # evs))"
      unfolding split by (rule list_emb_prefix)
    ultimately show ?thesis by blast
  qed
qed





lemma ends_session_nonempty: "ends_session line \<Longrightarrow> line \<noteq> []"
  by auto

lemma strip_nonempty: "strip s \<noteq> [] \<Longrightarrow> s \<noteq> []"
  by auto

lemma classify_ends:
  assumes "collecting st \<or> contains SESSION_START line" and "ends_session line"
  shows "\<exists>st'. classify p ev line st = Break st' \<and>
           rows st' = rows st @ (case parse_row line of None \<Rightarrow> [] | Some r \<Rightarrow> [r])"
  using assms by (auto simp: classify_def Let_def split: option.splits)

lemma read_line_ends:
  assumes "collecting st \<or> contains SESSION_START (strip (rx ev))"
    and "ends_session (strip (rx ev))"
  shows "\<exists>st'. read_line p ev st = Break st' \<and>
           rows st' = rows st @ (case line_row ev of None \<Rightarrow> [] | Some r \<Rightarrow> [r])"
proof -
  from assms(2) have "strip (rx ev) \<noteq> []" by (rule ends_session_nonempty)
  moreover from this have "rx ev \<noteq> []" by (rule strip_nonempty)
  ultimately show ?thesis
    using classify_ends [OF assms, of p ev] by (simp add: read_line_def Let_def line_row_def)
qed

text \<open>
  C5, as the code has it. When a line with the end marker or the completion phrase
  arrives while the session is being collected (or on the very line that starts it),
  the loop is left in that iteration, whatever the limits say. Either the hard timeout
  leaves the loop before the line is read, with the state unchanged, or the line is
  read: then it is first tried as a data row, and appended if it parses, before the
  loop is left.
\<close>

theorem end_line_leaves_loop:
  assumes "collecting st \<or> contains SESSION_START (strip (rx ev))"
    and "ends_session (strip (rx ev))"
  shows "\<exists>st'. capture_loop p (ev # evs) st = Exited st' \<and>
           (if timeout p > 0 \<and> now_top ev - start_wall p > timeout p
               \<and> \<not> (collecting st \<and> \<not> sent_stop st)
            then st' = st
            else rows st' = rows st @ (case line_row ev of None \<Rightarrow> [] | Some r \<Rightarrow> [r]))"
proof (cases "deadline_check p ev st")
  case (Break st1)
  then have "timeout p > 0 \<and> now_top ev - start_wall p > timeout p
               \<and> \<not> (collecting st \<and> \<not> sent_stop st) \<and> st1 = st"
    by (auto simp: deadline_check_def split: if_splits)
  with Break show ?thesis by (simp add: loop_body_def)
next
  case (Continue st1)
  then have no: "\<not> (timeout p > 0 \<and> now_top ev - start_wall p > timeout p
               \<and> \<not> (collecting st \<and> \<not> sent_stop st))"
    and st1: "rows st1 = rows st" "collecting st1 = collecting st"
    by (auto simp: deadline_check_def split: if_splits)
  from assms(1) st1 have "collecting st1 \<or> contains SESSION_START (strip (rx ev))" by simp
  from read_line_ends [OF this assms(2), of p] obtain st' where
    "read_line p ev st1 = Break st'"
    "rows st' = rows st1 @ (case line_row ev of None \<Rightarrow> [] | Some r \<Rightarrow> [r])" by blast
  with Continue st1 no show ?thesis by (auto simp: loop_body_def)
qed

theorem end_line_leaves_loop_witness:
  "(collecting (init_state\<lparr>collecting := True\<rparr>)
      \<or> contains SESSION_START (strip (rx (recv 2 ''[M_SESSION_END]'')))) \<and>
   ends_session (strip (rx (recv 2 ''[M_SESSION_END]''))) \<and>
   (\<exists>st'. capture_loop \<lparr>duration = Some 20, timeout = 90, start_wall = 0\<rparr>
             (recv 2 ''[M_SESSION_END]'' # []) (init_state\<lparr>collecting := True\<rparr>) = Exited st' \<and>
          rows st' = [])"
proof -
  have h1: "collecting (init_state\<lparr>collecting := True\<rparr>)
      \<or> contains SESSION_START (strip (rx (recv 2 ''[M_SESSION_END]'')))" by simp
  have h2: "ends_session (strip (rx (recv 2 ''[M_SESSION_END]'')))" by code_simp
  have r: "line_row (recv 2 ''[M_SESSION_END]'') = None" by code_simp
  from end_line_leaves_loop [OF h1 h2,
      of "\<lparr>duration = Some 20, timeout = 90, start_wall = 0\<rparr>" "[]", unfolded r]
  have "\<exists>st'. capture_loop \<lparr>duration = Some 20, timeout = 90, start_wall = 0\<rparr>
             (recv 2 ''[M_SESSION_END]'' # []) (init_state\<lparr>collecting := True\<rparr>) = Exited st' \<and>
          rows st' = []"
    by (simp add: recv_def init_state_def)
  with h1 h2 show ?thesis by (intro conjI)
qed

text \<open>
  C5 as stated fails for its last part: a line that begins with seven fields and holds
  the end marker ends the session and is appended as a row as well.
\<close>

theorem end_marker_line_appended:
  "rows (state_of (capture_loop \<lparr>duration = Some 20, timeout = 90, start_wall = 0\<rparr>
                     [recv 1 ''[M_SESSION_START]'',
                      recv 2 ''0.10,100,512,510,509,3,1.25 [M_SESSION_END]''] init_state))
     = [\<lparr>elapsed_s = 1 / 10, sample_ms = 100, raw_adc = 512, avg_20 = 510,
         filtered_20 = 509, zeroed_adc = 3, strain_uE = 5 / 4\<rparr>]"
  by code_simp

section \<open>The empty session\<close>

lemma data_frame_rows: "map data (frame_rows n prev rs) = rs"
  by (induction rs arbitrary: n prev) auto

text \<open>
  C6. After a successful tare, when the loop has left with state \<open>st\<close>: without rows
  the operation raises \<open>EmptySession\<close>; with at least one row it raises nothing and
  returns a frame whose data are exactly the collected rows, which are rows of received
  lines in the order of arrival.
\<close>

theorem empty_session_rejected:
  assumes "run_tare_before_monitor 60 tare_start polls = TareReturned"
    and "capture_loop p evs init_state = Exited st"
  shows "(rows st = [] \<longrightarrow> capture_monitor_session p tare_start polls evs = Raised EmptySession) \<and>
         (rows st \<noteq> [] \<longrightarrow>
            (\<exists>df. capture_monitor_session p tare_start polls evs = Returned df \<and>
                  map data df = rows st)) \<and>
         subseq (rows st) (List.map_filter line_row evs)"
proof -
  from rows_capture_loop [of p evs init_state] assms(2)
  have "subseq (rows st) (List.map_filter line_row evs)" by (auto simp: init_state_def)
  with assms show ?thesis
    by (simp add: capture_monitor_session_def finish_def data_frame_rows)
qed


theorem empty_session_rejected_witness:
  "run_tare_before_monitor 60 0 [(1, TARE_BANNER), (2, TARE_SUCCESS)] = TareReturned \<and>
   capture_loop \<lparr>duration = Some 20, timeout = 90, start_wall = 0\<rparr>
     [recv 1 ''[M_SESSION_START]'', recv 2 ''[M_SESSION_END]''] init_state
     = Exited (init_state\<lparr>collecting := True, monitor_start_wall := Some 1\<rparr>) \<and>
   capture_monitor_session \<lparr>duration = Some 20, timeout = 90, start_wall = 0\<rparr> 0
     [(1, TARE_BANNER), (2, TARE_SUCCESS)]
     [recv 1 ''[M_SESSION_START]'', recv 2 ''[M_SESSION_END]''] = Raised EmptySession"
proof -
  have h1: "run_tare_before_monitor 60 0 [(1, TARE_BANNER), (2, TARE_SUCCESS)] = TareReturned"
    by code_simp
  have h2: "capture_loop \<lparr>duration = Some 20, timeout = 90, start_wall = 0\<rparr>
     [recv 1 ''[M_SESSION_START]'', recv 2 ''[M_SESSION_END]''] init_state
     = Exited (init_state\<lparr>collecting := True, monitor_start_wall := Some 1\<rparr>)"
    by code_simp
  have "rows (init_state\<lparr>collecting := True, monitor_start_wall := Some 1\<rparr>) = []"
    by (simp add: init_state_def)
  with empty_session_rejected [OF h1 h2]
  have "capture_monitor_session \<lparr>duration = Some 20, timeout = 90, start_wall = 0\<rparr> 0
     [(1, TARE_BANNER), (2, TARE_SUCCESS)]
     [recv 1 ''[M_SESSION_START]'', recv 2 ''[M_SESSION_END]''] = Raised EmptySession"
    by (rule_tac mp [OF conjunct1]) 
  with h1 h2 show ?thesis by (intro conjI)
qed

section \<open>The tare handshake\<close>

text \<open>One iteration of the tare loop, in terms of the stripped line.\<close>

lemma tare_loop_Cons:
  "tare_loop T t0 saw (e # polls) =
     (if fst e - t0 > T then TareRaised TareTimeout
      else if contains TARE_SUCCESS (tare_line e) then TareReturned
      else if contains TARE_FAILURE (tare_line e) then TareRaised TareFailed
      else if (saw \<or> contains TARE_BANNER (tare_line e)) \<and> contains BANNER_CLOSE (tare_line e)
        then TareRaised TareEndedWithoutResult
      else tare_loop T t0 (saw \<or> contains TARE_BANNER (tare_line e)) polls)"
  by (cases e)
     (auto simp: tare_line_def Let_def TARE_SUCCESS_def TARE_FAILURE_def BANNER_CLOSE_def
        TARE_BANNER_def)

lemma tare_loop_ended_iff:
  "tare_loop T t0 saw polls = TareRaised TareEndedWithoutResult \<longleftrightarrow>
     (\<exists>pre e post. polls = pre @ e # post \<and>
        (\<forall>x\<in>set (pre @ [e]). undecided T t0 x) \<and>
        contains BANNER_CLOSE (tare_line e) \<and>
        (saw \<or> (\<exists>x\<in>set (pre @ [e]). contains TARE_BANNER (tare_line x))))"
  (is "?L saw polls \<longleftrightarrow> ?R saw polls")
proof (induction polls arbitrary: saw)
  case Nil
  show ?case by simp
next
  case (Cons a polls)
  let ?saw = "saw \<or> contains TARE_BANNER (tare_line a)"
  have rhs_here: "?R saw (a # polls) \<longleftrightarrow>
      undecided T t0 a \<and>
      ((contains BANNER_CLOSE (tare_line a) \<and> ?saw) \<or> ?R ?saw polls)"
  proof
    assume "?R saw (a # polls)"
    then obtain pre e post where eq: "a # polls = pre @ e # post"
      and und: "\<forall>x\<in>set (pre @ [e]). undecided T t0 x"
      and cl: "contains BANNER_CLOSE (tare_line e)"
      and bn: "saw \<or> (\<exists>x\<in>set (pre @ [e]). contains TARE_BANNER (tare_line x))"
      by blast
    show "undecided T t0 a \<and> ((contains BANNER_CLOSE (tare_line a) \<and> ?saw) \<or> ?R ?saw polls)"
    proof (cases pre)
      case Nil
      with eq und cl bn show ?thesis by auto
    next
      case (Cons b pre')
      with eq have ab: "b = a" and ps: "polls = pre' @ e # post" by auto
      from und Cons ab have ua: "undecided T t0 a" by simp
      from und Cons have u': "\<forall>x\<in>set (pre' @ [e]). undecided T t0 x" by simp
      from bn Cons ab have "?saw \<or> (\<exists>x\<in>set (pre' @ [e]). contains TARE_BANNER (tare_line x))"
        by auto
      with ps u' cl have "?R ?saw polls" by blast
      with ua show ?thesis by blast
    qed
  next
    assume r: "undecided T t0 a \<and> ((contains BANNER_CLOSE (tare_line a) \<and> ?saw) \<or> ?R ?saw polls)"
    then have ua: "undecided T t0 a" by blast
    from r consider (here) "contains BANNER_CLOSE (tare_line a)" "?saw"
      | (later) "?R ?saw polls" by blast
    then show "?R saw (a # polls)"
    proof cases
      case here
      with ua have "a # polls = [] @ a # polls \<and>
        (\<forall>x\<in>set ([] @ [a]). undecided T t0 x) \<and>
        contains BANNER_CLOSE (tare_line a) \<and>
        (saw \<or> (\<exists>x\<in>set ([] @ [a]). contains TARE_BANNER (tare_line x)))" by simp
      then show ?thesis by blast
    next
      case later
      then obtain pre e post where ps: "polls = pre @ e # post"
        and und: "\<forall>x\<in>set (pre @ [e]). undecided T t0 x"
        and cl: "contains BANNER_CLOSE (tare_line e)"
        and bn: "?saw \<or> (\<exists>x\<in>set (pre @ [e]). contains TARE_BANNER (tare_line x))"
        by blast
      from ps ua und cl bn have "a # polls = (a # pre) @ e # post \<and>
        (\<forall>x\<in>set ((a # pre) @ [e]). undecided T t0 x) \<and>
        contains BANNER_CLOSE (tare_line e) \<and>
        (saw \<or> (\<exists>x\<in>set ((a # pre) @ [e]). contains TARE_BANNER (tare_line x)))" by auto
      then show ?thesis by blast
    qed
  qed
  show ?case
    unfolding rhs_here Cons.IH [symmetric]
    by (auto simp: tare_loop_Cons undecided_def)
qed

lemma tare_loop_skip:
  "\<forall>x\<in>set pre. undecided T t0 x \<and> \<not> contains TARE_BANNER (tare_line x) \<Longrightarrow>
   tare_loop T t0 False (pre @ rest) = tare_loop T t0 False rest"
  by (induction pre) (auto simp: tare_loop_Cons undecided_def)


text \<open>
  C7, as the code has it. The handshake raises \<open>TareEndedWithoutResult\<close> exactly when
  the polls read so far, all within the time limit and none with the success or the
  failure marker, end with a line that holds the banner-closing marker, and the banner
  is in one of these lines: an earlier one or the closing line itself. Lines read
  before any banner, closing lines among them, change nothing. A line with the success
  marker that is read within the limit returns success, whatever else it holds and
  whether or not the banner has been seen.
\<close>

theorem tare_ended_without_result:
  "(run_tare_before_monitor T t0 polls = TareRaised TareEndedWithoutResult \<longleftrightarrow>
      (\<exists>pre e post. polls = pre @ e # post \<and>
         (\<forall>x\<in>set (pre @ [e]). undecided T t0 x) \<and>
         contains BANNER_CLOSE (tare_line e) \<and>
         (\<exists>x\<in>set (pre @ [e]). contains TARE_BANNER (tare_line x)))) \<and>
   ((\<forall>x\<in>set pre'. undecided T t0 x \<and> \<not> contains TARE_BANNER (tare_line x)) \<longrightarrow>
      run_tare_before_monitor T t0 (pre' @ rest) = run_tare_before_monitor T t0 rest) \<and>
   (\<not> fst e' - t0 > T \<and> contains TARE_SUCCESS (tare_line e') \<longrightarrow>
      tare_loop T t0 saw (e' # rest) = TareReturned)"
  using tare_loop_ended_iff [of T t0 False polls] tare_loop_skip [of pre' T t0 rest]
  by (simp add: run_tare_before_monitor_def tare_loop_Cons)

theorem tare_ended_without_result_witness:
  "undecided 60 0 (1, ''=== TARING STRAIN GAUGE ==='') \<and>
   undecided 60 0 (2, ''Hold still...'') \<and>
   undecided 60 0 (3, ''==========================='') \<and>
   contains BANNER_CLOSE (tare_line (3, ''==========================='')) \<and>
   contains TARE_BANNER (tare_line (1, ''=== TARING STRAIN GAUGE ==='')) \<and>
   run_tare_before_monitor 60 0
     [(1, ''=== TARING STRAIN GAUGE ===''), (2, ''Hold still...''),
      (3, ''==========================='')]
     = TareRaised TareEndedWithoutResult"
proof -
  have u1: "undecided 60 0 (1, ''=== TARING STRAIN GAUGE ==='')" by code_simp
  have u2: "undecided 60 0 (2, ''Hold still...'')" by code_simp
  have u3: "undecided 60 0 (3, ''==========================='')" by code_simp
  have c: "contains BANNER_CLOSE (tare_line (3, ''===========================''))" by code_simp
  have b: "contains TARE_BANNER (tare_line (1, ''=== TARING STRAIN GAUGE ===''))" by code_simp
  have "[(1, ''=== TARING STRAIN GAUGE ===''), (2, ''Hold still...''),
         (3::real, ''==========================='')]
          = [(1, ''=== TARING STRAIN GAUGE ===''), (2, ''Hold still...'')]
            @ (3, ''==========================='') # [] \<and>
        (\<forall>x\<in>set ([(1, ''=== TARING STRAIN GAUGE ===''), (2, ''Hold still...'')]
                   @ [(3, ''==========================='')]). undecided 60 0 x) \<and>
        contains BANNER_CLOSE (tare_line (3, ''==========================='')) \<and>
        (\<exists>x\<in>set ([(1, ''=== TARING STRAIN GAUGE ===''), (2, ''Hold still...'')]
                   @ [(3, ''==========================='')]).
            contains TARE_BANNER (tare_line x))"
    using u1 u2 u3 c b by simp
  then have "\<exists>pre e post.
        [(1, ''=== TARING STRAIN GAUGE ===''), (2, ''Hold still...''),
         (3::real, ''==========================='')] = pre @ e # post \<and>
        (\<forall>x\<in>set (pre @ [e]). undecided 60 0 x) \<and>
        contains BANNER_CLOSE (tare_line e) \<and>
        (\<exists>x\<in>set (pre @ [e]). contains TARE_BANNER (tare_line x))"
    by blast
  with tare_ended_without_result [of 60 0 "[(1, ''=== TARING STRAIN GAUGE ===''),
      (2, ''Hold still...''), (3, ''==========================='')]", THEN conjunct1]
  have "run_tare_before_monitor 60 0
     [(1, ''=== TARING STRAIN GAUGE ===''), (2, ''Hold still...''),
      (3, ''==========================='')]
     = TareRaised TareEndedWithoutResult"
    by (rule iffD2)
  with u1 u2 u3 c b show ?thesis by (intro conjI)
qed

text \<open>
  C7 as stated fails on "previously": a single line that holds the banner and the
  closing marker raises the error although no banner line was read before it.
\<close>

theorem banner_and_close_on_one_line:
  "run_tare_before_monitor 60 0
     [(1, ''=== TARING STRAIN GAUGE === ==========================='')]
     = TareRaised TareEndedWithoutResult"
  by code_simp

section \<open>A port that stays silent\<close>

lemma silent_idle:
  "\<not> collecting st \<Longrightarrow> rx e = [] \<Longrightarrow>
   loop_body p e st =
     (if timeout p > 0 \<and> now_top e - start_wall p > timeout p then Break st else Continue st)"
  by (simp add: loop_body_def deadline_check_def read_line_def)

lemma silent_device_general:
  assumes "\<not> collecting st" and "timeout p > 0"
  shows "\<forall>e\<in>set evs. rx e = [] \<Longrightarrow> paced poll t evs \<Longrightarrow> t - start_wall p \<le> timeout p \<Longrightarrow>
         \<exists>e\<in>set evs. now_top e - start_wall p > timeout p \<Longrightarrow>
         \<exists>pre e post. evs = pre @ e # post \<and>
            capture_loop p pre st = Running st \<and>
            capture_loop p evs st = Exited st \<and>
            timeout p < now_top e - start_wall p \<and>
            now_top e - start_wall p \<le> timeout p + poll"
proof (induction evs arbitrary: t)
  case Nil
  then show ?case by simp
next
  case (Cons a evs)
  from Cons.prems have sil: "rx a = []" and near: "now_top a \<le> t + poll" by simp_all
  show ?case
  proof (cases "now_top a - start_wall p > timeout p")
    case True
    with assms sil have "capture_loop p (a # evs) st = Exited st"
      by (simp add: silent_idle)
    moreover from near Cons.prems(3) have "now_top a - start_wall p \<le> timeout p + poll"
      by simp
    ultimately have "a # evs = [] @ a # evs \<and>
            capture_loop p [] st = Running st \<and>
            capture_loop p (a # evs) st = Exited st \<and>
            timeout p < now_top a - start_wall p \<and>
            now_top a - start_wall p \<le> timeout p + poll"
      using True by simp
    then show ?thesis by blast
  next
    case False
    with assms sil have step: "loop_body p a st = Continue st" by (simp add: silent_idle)
    from Cons.prems False have
      "\<forall>e\<in>set evs. rx e = []" "paced poll (now_top a) evs"
      "now_top a - start_wall p \<le> timeout p"
      "\<exists>e\<in>set evs. now_top e - start_wall p > timeout p"
      by auto
    from Cons.IH [OF this] obtain pre e post where
      "evs = pre @ e # post" "capture_loop p pre st = Running st"
      "capture_loop p evs st = Exited st" "timeout p < now_top e - start_wall p"
      "now_top e - start_wall p \<le> timeout p + poll"
      by blast
    with step have "a # evs = (a # pre) @ e # post \<and>
            capture_loop p (a # pre) st = Running st \<and>
            capture_loop p (a # evs) st = Exited st \<and>
            timeout p < now_top e - start_wall p \<and>
            now_top e - start_wall p \<le> timeout p + poll"
      by simp
    then show ?thesis by blast
  qed
qed

text \<open>
  C8, as the code has it. Let the hard timeout be positive, let every read come back
  empty, let the clock advance by at most \<open>poll\<close> from one deadline test to the next
  (the first test at most \<open>poll\<close> after the start), and let the clock pass the
  timeout at some test. Then the loop leaves, with nothing collected and nothing sent,
  at the first test past the timeout, and the clock then shows at most the timeout plus
  \<open>poll\<close> since the start.
\<close>

theorem silent_device_terminates:
  assumes "timeout p > 0"
    and "\<forall>e\<in>set evs. rx e = []"
    and "paced poll (start_wall p) evs"
    and "\<exists>e\<in>set evs. now_top e - start_wall p > timeout p"
  shows "\<exists>pre e post. evs = pre @ e # post \<and>
            capture_loop p pre init_state = Running init_state \<and>
            capture_loop p evs init_state = Exited init_state \<and>
            timeout p < now_top e - start_wall p \<and>
            now_top e - start_wall p \<le> timeout p + poll"
proof -
  have idle: "\<not> collecting init_state" by (simp add: init_state_def)
  from assms(1) have "start_wall p - start_wall p \<le> timeout p" by simp
  from silent_device_general [OF idle assms(1) assms(2) assms(3) this assms(4)]
  show ?thesis .
qed

theorem silent_device_terminates_witness:
  "timeout \<lparr>duration = Some 20, timeout = 1, start_wall = 0\<rparr> > 0 \<and>
   rx (recv (1/2) []) = [] \<and> rx (recv 1 []) = [] \<and> rx (recv (3/2) []) = [] \<and>
   paced (1/2) (start_wall \<lparr>duration = Some 20, timeout = 1, start_wall = 0\<rparr>)
     [recv (1/2) [], recv 1 [], recv (3/2) []] \<and>
   capture_loop \<lparr>duration = Some 20, timeout = 1, start_wall = 0\<rparr>
     [recv (1/2) [], recv 1 [], recv (3/2) []] init_state = Exited init_state"
proof -
  have h1: "timeout \<lparr>duration = Some 20, timeout = 1, start_wall = 0\<rparr> > 0" by simp
  have s: "rx (recv (1/2) []) = []" "rx (recv 1 []) = []" "rx (recv (3/2) []) = []"
    by (simp_all add: recv_def)
  then have h2: "\<forall>e\<in>set [recv (1/2) [], recv 1 [], recv (3/2) []]. rx e = []" by simp
  have h3: "paced (1/2) (start_wall \<lparr>duration = Some 20, timeout = 1, start_wall = 0\<rparr>)
     [recv (1/2) [], recv 1 [], recv (3/2) []]" by (simp add: recv_def)
  have h4: "\<exists>e\<in>set [recv (1/2) [], recv 1 [], recv (3/2) []].
     now_top e - start_wall \<lparr>duration = Some 20, timeout = 1, start_wall = 0\<rparr>
       > timeout \<lparr>duration = Some 20, timeout = 1, start_wall = 0\<rparr>" by (simp add: recv_def)
  from silent_device_terminates [OF h1 h2 h3 h4]
  have "capture_loop \<lparr>duration = Some 20, timeout = 1, start_wall = 0\<rparr>
     [recv (1/2) [], recv 1 [], recv (3/2) []] init_state = Exited init_state" by blast
  with h1 s h3 show ?thesis by (intro conjI)
qed

text \<open>
  C8 as stated fails for a timeout that is not positive: with timeout 0 and a poll
  interval of half a second the loop is still running at 1.5 seconds.
\<close>

theorem silent_device_zero_timeout_runs_on:
  "paced (1/2) 0 [recv (1/2) [], recv 1 [], recv (3/2) []] \<and>
   capture_loop \<lparr>duration = Some 20, timeout = 0, start_wall = 0\<rparr>
     [recv (1/2) [], recv 1 [], recv (3/2) []] init_state = Running init_state"
  by (simp add: recv_def loop_body_def deadline_check_def read_line_def)

section \<open>What \<^verbatim>\<open>parse_row\<close> accepts\<close>

subsection \<open>The pieces of the pattern\<close>








































subsection \<open>White space, separators and splitting at commas\<close>








lemma next_ok_space: "\<forall>c\<in>set w. isspace c \<Longrightarrow> w \<noteq> [] \<or> r = [] \<Longrightarrow> next_ok (w @ r)"
  by (cases w) (auto simp: next_ok_def)















section \<open>Rendering and parsing again\<close>


















end
